theory Spec2Isabelle
  imports Main "HOL-Library.AList"
begin

section \<open>Device descriptions (tools/DeviceWatcher.h)\<close>

text \<open>
  \<^verbatim>\<open>device::Description\<close> is a value snapshot of one udev device. Every accessor of the
  class is a field of the record. The two \<^verbatim>\<open>std::map<std::string, std::string>\<close> members
  are association lists read with \<^const>\<open>map_of\<close>; the tag list is a \<^verbatim>\<open>std::vector\<close>.
\<close>

record Description =
  devPath :: string
  subsystem :: string
  devType :: string
  sysPath :: string
  sysName :: string
  sysNum :: string
  devNode :: string
  driver :: string
  isInitialized :: bool
  seqNum :: nat
  usecSinceInitialized :: nat
  properties :: "(string \<times> string) list"
  tags :: "string list"
  attributes :: "(string \<times> string) list"

text \<open>
  Modelled from the spec: the body of the copy constructor
  \<^verbatim>\<open>Description(const Description &)\<close> is not part of the sources (the header only declares
  it). The spec describes a copy as an independent snapshot of the same device; a value has
  no aliasing, so the copy is the value itself.
\<close>

definition Description_copy :: "Description \<Rightarrow> Description" where
  "Description_copy other = other"


section \<open>The filtered watcher's rules (tools/DeviceWatcher.h, lines 164-190)\<close>

record FilteredDeviceWatcher =
  m_matchSubsystem :: string
  m_matchDevType :: string
  m_matchProperties :: "(string \<times> string) list"
  m_matchTags :: "string list"
  m_matchAttributes :: "(string \<times> string) list"

text \<open>A freshly constructed filter: every member is default-constructed, hence empty.\<close>

definition FilteredDeviceWatcher_new :: FilteredDeviceWatcher where
  "FilteredDeviceWatcher_new =
     \<lparr>m_matchSubsystem = [], m_matchDevType = [], m_matchProperties = [],
      m_matchTags = [], m_matchAttributes = []\<rparr>"

text \<open>The inline setters of the header. \<^verbatim>\<open>m[key] = val\<close> overwrites an existing key.\<close>

definition setSubsystem :: "string \<Rightarrow> FilteredDeviceWatcher \<Rightarrow> FilteredDeviceWatcher" where
  "setSubsystem val f = f\<lparr>m_matchSubsystem := val\<rparr>"

definition setDevType :: "string \<Rightarrow> FilteredDeviceWatcher \<Rightarrow> FilteredDeviceWatcher" where
  "setDevType val f = f\<lparr>m_matchDevType := val\<rparr>"

definition addProperty :: "string \<Rightarrow> string \<Rightarrow> FilteredDeviceWatcher \<Rightarrow> FilteredDeviceWatcher" where
  "addProperty key val f = f\<lparr>m_matchProperties := AList.update key val (m_matchProperties f)\<rparr>"

definition addTag :: "string \<Rightarrow> FilteredDeviceWatcher \<Rightarrow> FilteredDeviceWatcher" where
  "addTag val f = f\<lparr>m_matchTags := m_matchTags f @ [val]\<rparr>"

definition addAttribute :: "string \<Rightarrow> string \<Rightarrow> FilteredDeviceWatcher \<Rightarrow> FilteredDeviceWatcher" where
  "addAttribute key val f = f\<lparr>m_matchAttributes := AList.update key val (m_matchAttributes f)\<rparr>"

text \<open>
  Modelled from the spec: the body of \<^verbatim>\<open>FilteredDeviceWatcher::isVisible\<close> is not part of
  the sources (the header only declares the override). The spec's rules are checked one
  after the other, each one rejecting the device as soon as it fails: the two string rules
  (an empty string is the unset rule), then one pass over each rule container.
\<close>

fun match_entries :: "(string \<times> string) list \<Rightarrow> (string \<times> string) list \<Rightarrow> bool" where
  "match_entries [] values = True"
| "match_entries ((key, val) # rules) values =
     (case map_of values key of
        None \<Rightarrow> False
      | Some found \<Rightarrow> if found \<noteq> val then False else match_entries rules values)"

fun match_tags :: "string list \<Rightarrow> string list \<Rightarrow> bool" where
  "match_tags [] present = True"
| "match_tags (tag # rules) present =
     (if tag \<notin> set present then False else match_tags rules present)"

definition isVisible :: "FilteredDeviceWatcher \<Rightarrow> Description \<Rightarrow> bool" where
  "isVisible f dev =
     (if m_matchSubsystem f \<noteq> [] \<and> m_matchSubsystem f \<noteq> subsystem dev then False
      else if m_matchDevType f \<noteq> [] \<and> m_matchDevType f \<noteq> devType dev then False
      else if \<not> match_entries (m_matchProperties f) (properties dev) then False
      else if \<not> match_tags (m_matchTags f) (tags dev) then False
      else match_entries (m_matchAttributes f) (attributes dev))"


section \<open>The discovery engine (tools/DeviceWatcher.h, lines 109-154)\<close>

text \<open>
  The two signals of \<^verbatim>\<open>DeviceWatcher\<close>. A run of the engine is observed through the list of
  signals it emits, oldest first.
\<close>

datatype signal = deviceAdded Description | deviceRemoved Description

text \<open>
  The watcher's members. The header documents \<^verbatim>\<open>m_known\<close> as the map of device syspath
  to description (the spec calls the key the device path). The udev handles
  (\<^verbatim>\<open>m_udev\<close>, \<^verbatim>\<open>m_monitor\<close>, \<^verbatim>\<open>m_udevNotifier\<close>) carry no state any claim reads.
\<close>

record DeviceWatcher =
  m_active :: bool
  m_known :: "(string \<times> Description) list"

definition DeviceWatcher_new :: DeviceWatcher where
  "DeviceWatcher_new = \<lparr>m_active = False, m_known = []\<rparr>"

text \<open>
  Modelled from the spec: the body of \<^verbatim>\<open>DeviceWatcher::scan\<close> is not part of the sources.
  The enumeration (what udev lists at the time of the call) and the visibility hook are
  arguments. First pass, over the enumeration in order: a visible device absent from the
  known map is announced and inserted. Second pass, over the known map: an entry absent from
  the filtered enumeration is announced as removed and erased. An entry present in both is
  left as it is.
\<close>

fun scan_present ::
  "(Description \<Rightarrow> bool) \<Rightarrow> Description list \<Rightarrow> (string \<times> Description) list
     \<Rightarrow> signal list \<times> (string \<times> Description) list" where
  "scan_present visible [] known = ([], known)"
| "scan_present visible (dev # rest) known =
     (if visible dev \<and> map_of known (sysPath dev) = None
      then (let (signals, known') = scan_present visible rest (known @ [(sysPath dev, dev)])
            in (deviceAdded dev # signals, known'))
      else scan_present visible rest known)"

fun scan_absent ::
  "string list \<Rightarrow> (string \<times> Description) list \<Rightarrow> signal list \<times> (string \<times> Description) list" where
  "scan_absent present [] = ([], [])"
| "scan_absent present ((path, dev) # rest) =
     (let (signals, kept) = scan_absent present rest
      in if path \<in> set present then (signals, (path, dev) # kept)
         else (deviceRemoved dev # signals, kept))"

definition scan ::
  "(Description \<Rightarrow> bool) \<Rightarrow> Description list \<Rightarrow> DeviceWatcher \<Rightarrow> signal list \<times> DeviceWatcher" where
  "scan visible enumeration w =
     (let (added, known') = scan_present visible enumeration (m_known w);
          (removed, kept) = scan_absent (map sysPath (filter visible enumeration)) known'
      in (added @ removed, w\<lparr>m_known := kept\<rparr>))"

text \<open>
  Modelled from the spec: the body of \<^verbatim>\<open>DeviceWatcher::setActive\<close> is not part of the
  sources. Going from inactive to active ends with the initial scan; going from active to
  inactive emits nothing and leaves the known map alone; a call that asks for the current
  mode is no transition.
\<close>

definition DeviceWatcher_setActive ::
  "(Description \<Rightarrow> bool) \<Rightarrow> Description list \<Rightarrow> DeviceWatcher \<Rightarrow> bool
     \<Rightarrow> signal list \<times> DeviceWatcher" where
  "DeviceWatcher_setActive visible enumeration w active =
     (if active = m_active w then ([], w)
      else if active then
        (let (signals, w') = scan visible enumeration w in (signals, w'\<lparr>m_active := True\<rparr>))
      else ([], w\<lparr>m_active := False\<rparr>))"

text \<open>
  Modelled from the spec: the body of \<^verbatim>\<open>DeviceWatcher::onMonitorReady\<close> is not part of the
  sources. The raw events that are ready are an argument; they are drained in order. Each
  one is classified, run through the visibility hook, and then handled with the add or
  remove rule of the scan: nothing happens when the hook rejects the device, when an added
  device is already known, or when a removed device is not known.
\<close>

datatype action = Add | Remove | Other

fun onMonitorEvent ::
  "(Description \<Rightarrow> bool) \<Rightarrow> action \<times> Description \<Rightarrow> (string \<times> Description) list
     \<Rightarrow> signal list \<times> (string \<times> Description) list" where
  "onMonitorEvent visible (Add, dev) known =
     (if visible dev \<and> map_of known (sysPath dev) = None
      then ([deviceAdded dev], known @ [(sysPath dev, dev)])
      else ([], known))"
| "onMonitorEvent visible (Remove, dev) known =
     (if visible dev then
        (case map_of known (sysPath dev) of
           Some old \<Rightarrow> ([deviceRemoved old], AList.delete (sysPath dev) known)
         | None \<Rightarrow> ([], known))
      else ([], known))"
| "onMonitorEvent visible (Other, dev) known = ([], known)"

fun drain ::
  "(Description \<Rightarrow> bool) \<Rightarrow> (action \<times> Description) list \<Rightarrow> (string \<times> Description) list
     \<Rightarrow> signal list \<times> (string \<times> Description) list" where
  "drain visible [] known = ([], known)"
| "drain visible (ev # ready) known =
     (let (first, known') = onMonitorEvent visible ev known;
          (later, known'') = drain visible ready known'
      in (first @ later, known''))"

definition onMonitorReady ::
  "(Description \<Rightarrow> bool) \<Rightarrow> (action \<times> Description) list \<Rightarrow> DeviceWatcher
     \<Rightarrow> signal list \<times> DeviceWatcher" where
  "onMonitorReady visible ready w =
     (let (signals, known') = drain visible ready (m_known w)
      in (signals, w\<lparr>m_known := known'\<rparr>))"

text \<open>
  The history of an engine: the watcher together with every signal it has emitted so far.
  An engine starts with an empty map and an empty history and moves by \<^const>\<open>scan\<close>,
  \<^const>\<open>DeviceWatcher_setActive\<close> and \<^const>\<open>onMonitorReady\<close>, on any enumeration and any
  batch of raw events.
\<close>

inductive engine_reachable ::
  "(Description \<Rightarrow> bool) \<Rightarrow> DeviceWatcher \<times> signal list \<Rightarrow> bool" for visible where
  engine_new: "engine_reachable visible (DeviceWatcher_new, [])"
| engine_scan:
    "engine_reachable visible (w, history) \<Longrightarrow>
     engine_reachable visible
       (snd (scan visible enumeration w), history @ fst (scan visible enumeration w))"
| engine_setActive:
    "engine_reachable visible (w, history) \<Longrightarrow>
     engine_reachable visible
       (snd (DeviceWatcher_setActive visible enumeration w active),
        history @ fst (DeviceWatcher_setActive visible enumeration w active))"
| engine_monitor:
    "engine_reachable visible (w, history) \<Longrightarrow>
     engine_reachable visible
       (snd (onMonitorReady visible ready w), history @ fst (onMonitorReady visible ready w))"

text \<open>
  The devices a history leaves announced: a \<^const>\<open>deviceAdded\<close> announces its syspath, a
  later \<^const>\<open>deviceRemoved\<close> for the same syspath withdraws it.
\<close>

fun replay :: "signal \<Rightarrow> string set \<Rightarrow> string set" where
  "replay (deviceAdded dev) announced = insert (sysPath dev) announced"
| "replay (deviceRemoved dev) announced = announced - {sysPath dev}"

definition outstanding :: "signal list \<Rightarrow> string set" where
  "outstanding history = fold replay history {}"

text \<open>
  The representation invariant of the known map: it is a map, so no key occurs twice, and
  every description is stored under its own syspath.
\<close>

definition known_ok :: "(string \<times> Description) list \<Rightarrow> bool" where
  "known_ok known \<longleftrightarrow>
     distinct (map fst known) \<and> list_all (\<lambda>(path, dev). sysPath dev = path) known"

text \<open>Which signals concern a given syspath.\<close>

fun announces :: "string \<Rightarrow> signal \<Rightarrow> bool" where
  "announces path (deviceAdded dev) = (sysPath dev = path)"
| "announces path (deviceRemoved dev) = False"

fun withdraws :: "string \<Rightarrow> signal \<Rightarrow> bool" where
  "withdraws path (deviceAdded dev) = False"
| "withdraws path (deviceRemoved dev) = (sysPath dev = path)"


section \<open>The lifecycle registry (keyledsd/Service.cxx)\<close>

text \<open>
  Modelled from the spec: the classes \<^verbatim>\<open>Device\<close>, \<^verbatim>\<open>DeviceManager\<close> and
  \<^verbatim>\<open>Configuration\<close> and the error codes of libkeyleds are declared in headers that are
  not part of the sources. They are modelled as far as \<^verbatim>\<open>Service.cxx\<close> reads them.
  \<^verbatim>\<open>Device::error\<close> carries a code and a message, and only the code
  \<^verbatim>\<open>KEYLEDS_ERROR_HIDVERSION\<close> is told apart from the others. The configuration supplies
  the auto-quit option. A manager owns the description and the opened device it was built
  from and gives them back.
\<close>

datatype error_code = KEYLEDS_ERROR_HIDVERSION | KEYLEDS_ERROR_other nat

record Device_error =
  code :: error_code
  what :: string

record Device =
  model :: string
  firmware :: string
  name :: string

record Configuration =
  autoQuit :: bool

record DeviceManager =
  description :: Description
  device :: Device
  configuration :: Configuration

text \<open>
  What a call of a handler does besides changing the members, in program order. The two
  outward signals carry \<^verbatim>\<open>m_devices\<close> as it is at the \<^verbatim>\<open>emit\<close>: a slot connected to
  the signal runs at that moment and sees that registry.
\<close>

datatype effect =
    deviceManagerAdded DeviceManager "(string \<times> DeviceManager) list"
  | deviceManagerRemoved DeviceManager "(string \<times> DeviceManager) list"
  | connect_stopped DeviceManager
  | cout_Opened string DeviceManager
  | cerr_Not_opening string string
  | cout_Removing DeviceManager
  | quit
  | destroyed DeviceManager
  | watcher_setActive bool

record Service =
  m_configuration :: Configuration
  m_deviceWatcher :: DeviceWatcher
  m_active :: bool
  m_devices :: "(string \<times> DeviceManager) list"

text \<open>\<^verbatim>\<open>Service::Service\<close>: registry empty, inactive, watcher freshly constructed.\<close>

definition Service_new :: "Configuration \<Rightarrow> Service" where
  "Service_new config =
     \<lparr>m_configuration = config, m_deviceWatcher = DeviceWatcher_new,
      m_active = False, m_devices = []\<rparr>"

text \<open>
  \<^verbatim>\<open>Service::onDeviceAdded\<close> (lines 40-67). \<^verbatim>\<open>open_device\<close> is the device I/O collaborator:
  the constructor \<^verbatim>\<open>Device(devNode)\<close> either throws a \<^verbatim>\<open>Device::error\<close> or yields the
  device. On success the statements run in the order of the source: the \<^verbatim>\<open>emit\<close> at line
  47, the \<^verbatim>\<open>connect\<close>, the print, and at line 58 the assignment
  \<^verbatim>\<open>m_devices[devPath] = std::move(manager)\<close>, which releases the manager the slot held
  before, if any. The \<^verbatim>\<open>catch\<close> prints unless the code is the hid version error; the
  handler returns normally either way.
\<close>

definition onDeviceAdded ::
  "(string \<Rightarrow> Device_error + Device) \<Rightarrow> Service \<Rightarrow> Description \<Rightarrow> effect list \<times> Service" where
  "onDeviceAdded open_device s descr =
     (case open_device (devNode descr) of
        Inr dev \<Rightarrow>
          (let manager = \<lparr>description = Description_copy descr, device = dev,
                          configuration = m_configuration s\<rparr>
           in ([deviceManagerAdded manager (m_devices s),
                connect_stopped manager,
                cout_Opened (devNode descr) manager]
               @ (case map_of (m_devices s) (devPath descr) of
                    Some previous \<Rightarrow> [destroyed previous]
                  | None \<Rightarrow> []),
               s\<lparr>m_devices := AList.update (devPath descr) manager (m_devices s)\<rparr>))
      | Inl error \<Rightarrow>
          (if code error \<noteq> KEYLEDS_ERROR_HIDVERSION
           then ([cerr_Not_opening (devNode descr) (what error)], s)
           else ([], s)))"

text \<open>
  \<^verbatim>\<open>Service::onDeviceRemoved\<close> (lines 69-83): nothing at all when \<^verbatim>\<open>find\<close> fails; otherwise
  the entry is erased, then the print, the \<^verbatim>\<open>emit\<close>, the auto-quit test on the registry
  after the erasure, and the release of the manager at the end of the block.
\<close>

definition onDeviceRemoved :: "Service \<Rightarrow> Description \<Rightarrow> effect list \<times> Service" where
  "onDeviceRemoved s descr =
     (case map_of (m_devices s) (devPath descr) of
        Some manager \<Rightarrow>
          (let devices = AList.delete (devPath descr) (m_devices s)
           in ([cout_Removing manager, deviceManagerRemoved manager devices]
               @ (if devices = [] \<and> autoQuit (m_configuration s) then [quit] else [])
               @ [destroyed manager],
               s\<lparr>m_devices := devices\<rparr>))
      | None \<Rightarrow> ([], s))"

text \<open>
  \<^verbatim>\<open>Service::onDeviceLoopFinished\<close> (lines 85-89): \<^verbatim>\<open>QObject::sender()\<close> is the manager
  whose \<^verbatim>\<open>stopped()\<close> signal fired.
\<close>

definition onDeviceLoopFinished :: "Service \<Rightarrow> DeviceManager \<Rightarrow> effect list \<times> Service" where
  "onDeviceLoopFinished s sender = onDeviceRemoved s (description sender)"

text \<open>
  The two connections made by the constructor (lines 17-20): a watcher signal runs the
  matching slot. A batch of signals is delivered in order, each slot starting from the
  state the one before it left.
\<close>

fun deliver ::
  "(string \<Rightarrow> Device_error + Device) \<Rightarrow> Service \<Rightarrow> signal \<Rightarrow> effect list \<times> Service" where
  "deliver open_device s (deviceAdded descr) = onDeviceAdded open_device s descr"
| "deliver open_device s (deviceRemoved descr) = onDeviceRemoved s descr"

fun deliver_all ::
  "(string \<Rightarrow> Device_error + Device) \<Rightarrow> Service \<Rightarrow> signal list \<Rightarrow> effect list \<times> Service" where
  "deliver_all open_device s [] = ([], s)"
| "deliver_all open_device s (sig # signals) =
     (let (first, s') = deliver open_device s sig;
          (later, s'') = deliver_all open_device s' signals
      in (first @ later, s''))"

text \<open>
  \<^verbatim>\<open>Service::setActive\<close> (lines 34-38): the call into the watcher, whose signals reach the
  slots, then the flag.
\<close>

definition Service_setActive ::
  "(Description \<Rightarrow> bool) \<Rightarrow> Description list \<Rightarrow> (string \<Rightarrow> Device_error + Device)
     \<Rightarrow> Service \<Rightarrow> bool \<Rightarrow> effect list \<times> Service" where
  "Service_setActive visible enumeration open_device s active =
     (let (signals, w) = DeviceWatcher_setActive visible enumeration (m_deviceWatcher s) active;
          (effects, s') = deliver_all open_device (s\<lparr>m_deviceWatcher := w\<rparr>) signals
      in (watcher_setActive active # effects, s'\<lparr>m_active := active\<rparr>))"

text \<open>\<^verbatim>\<open>Service::init\<close> (lines 29-32).\<close>

definition init ::
  "(Description \<Rightarrow> bool) \<Rightarrow> Description list \<Rightarrow> (string \<Rightarrow> Device_error + Device)
     \<Rightarrow> Service \<Rightarrow> effect list \<times> Service" where
  "init visible enumeration open_device s = Service_setActive visible enumeration open_device s True"

text \<open>
  \<^verbatim>\<open>Service::~Service\<close> (lines 23-27): \<^verbatim>\<open>setActive(false)\<close>, then \<^verbatim>\<open>m_devices.clear()\<close>,
  which releases every manager still held.
\<close>

definition Service_destructor ::
  "(Description \<Rightarrow> bool) \<Rightarrow> Description list \<Rightarrow> (string \<Rightarrow> Device_error + Device)
     \<Rightarrow> Service \<Rightarrow> effect list \<times> Service" where
  "Service_destructor visible enumeration open_device s =
     (let (effects, s') = Service_setActive visible enumeration open_device s False
      in (effects @ map (destroyed \<circ> snd) (m_devices s'), s'\<lparr>m_devices := []\<rparr>))"

text \<open>
  The registry states a service can be in: constructed, then any sequence of slot calls
  (with any outcome of the open attempt), mode changes and unsolicited stops of a manager
  that is in the registry.
\<close>

inductive service_reachable :: "Service \<Rightarrow> bool" where
  service_new: "service_reachable (Service_new config)"
| service_added:
    "service_reachable s \<Longrightarrow> service_reachable (snd (onDeviceAdded open_device s descr))"
| service_removed:
    "service_reachable s \<Longrightarrow> service_reachable (snd (onDeviceRemoved s descr))"
| service_stopped:
    "service_reachable s \<Longrightarrow> (path, sender) \<in> set (m_devices s) \<Longrightarrow>
     service_reachable (snd (onDeviceLoopFinished s sender))"
| service_setActive:
    "service_reachable s \<Longrightarrow>
     service_reachable (snd (Service_setActive visible enumeration open_device s active))"

text \<open>How many managers the registry holds under one device path.\<close>

definition managers_at :: "string \<Rightarrow> Service \<Rightarrow> nat" where
  "managers_at path s = length (filter (\<lambda>entry. fst entry = path) (m_devices s))"

text \<open>Selecting effects of one kind from what a handler did.\<close>

fun is_deviceManagerAdded :: "effect \<Rightarrow> bool" where
  "is_deviceManagerAdded (deviceManagerAdded manager registry) = True"
| "is_deviceManagerAdded other = False"

fun is_deviceManagerRemoved :: "effect \<Rightarrow> bool" where
  "is_deviceManagerRemoved (deviceManagerRemoved manager registry) = True"
| "is_deviceManagerRemoved other = False"

text \<open>
  The representation invariant of the registry: \<^verbatim>\<open>m_devices\<close> is a map, so no key occurs
  twice, and every manager sits under the device path of the description it remembers.
\<close>

definition registry_ok :: "(string \<times> DeviceManager) list \<Rightarrow> bool" where
  "registry_ok devices \<longleftrightarrow>
     distinct (map fst devices)
     \<and> list_all (\<lambda>(path, manager). devPath (description manager) = path) devices"

text \<open>
  Whether every \<^const>\<open>deviceManagerAdded\<close> among the effects was emitted with the manager
  already stored under the given path.
\<close>

definition notified_after_insertion :: "string \<Rightarrow> effect list \<Rightarrow> bool" where
  "notified_after_insertion path effects =
     list_all (\<lambda>e. case e of
                      deviceManagerAdded manager registry \<Rightarrow> map_of registry path = Some manager
                    | _ \<Rightarrow> True) effects"


section \<open>Concrete devices\<close>

text \<open>
  A keyboard behind \<^verbatim>\<open>/dev/hidraw0\<close> that opens, a second USB device that carries the
  keyboard tag but not the property \<^verbatim>\<open>ID_INPUT=1\<close>, a filter asking for subsystem
  \<^verbatim>\<open>usb\<close>, tag \<^verbatim>\<open>keyboard\<close> and that property, and the service and the watcher that hold
  the keyboard.
\<close>

definition example_keyboard :: Description where
  "example_keyboard =
     \<lparr>devPath = ''/devices/usb1/1-1'', subsystem = ''usb'', devType = ''usb_device'',
      sysPath = ''/sys/devices/usb1/1-1'', sysName = ''1-1'', sysNum = ''1'',
      devNode = ''/dev/hidraw0'', driver = ''usb'', isInitialized = True, seqNum = 7,
      usecSinceInitialized = 0, properties = [(''ID_INPUT'', ''1'')],
      tags = [''keyboard''], attributes = [(''idVendor'', ''046d'')]\<rparr>"

definition example_device :: Device where
  "example_device = \<lparr>model = ''c333'', firmware = ''1.0'', name = ''G610''\<rparr>"

definition example_open :: "string \<Rightarrow> Device_error + Device" where
  "example_open node =
     (if node = ''/dev/hidraw0'' then Inr example_device
      else Inl \<lparr>code = KEYLEDS_ERROR_HIDVERSION, what = ''invalid HID version''\<rparr>)"

definition example_refuse :: "string \<Rightarrow> Device_error + Device" where
  "example_refuse node = Inl \<lparr>code = KEYLEDS_ERROR_other 1, what = ''permission denied''\<rparr>"

definition example_config :: Configuration where
  "example_config = \<lparr>autoQuit = True\<rparr>"

definition example_manager :: DeviceManager where
  "example_manager =
     \<lparr>description = example_keyboard, device = example_device, configuration = example_config\<rparr>"

definition example_service :: Service where
  "example_service = snd (onDeviceAdded example_open (Service_new example_config) example_keyboard)"

definition example_replacement :: Device where
  "example_replacement = \<lparr>model = ''c333'', firmware = ''2.0'', name = ''G610''\<rparr>"

definition example_reopen :: "string \<Rightarrow> Device_error + Device" where
  "example_reopen node = Inr example_replacement"

definition example_filter :: FilteredDeviceWatcher where
  "example_filter =
     addProperty ''ID_INPUT'' ''1'' (addTag ''keyboard'' (setSubsystem ''usb''
       FilteredDeviceWatcher_new))"

definition example_hub :: Description where
  "example_hub =
     \<lparr>devPath = ''/devices/usb1/1-2'', subsystem = ''usb'', devType = ''usb_device'',
      sysPath = ''/sys/devices/usb1/1-2'', sysName = ''1-2'', sysNum = ''2'',
      devNode = ''/dev/hidraw1'', driver = ''usb'', isInitialized = True, seqNum = 8,
      usecSinceInitialized = 0, properties = [(''ID_BUS'', ''usb'')],
      tags = [''keyboard''], attributes = []\<rparr>"

definition example_watcher :: DeviceWatcher where
  "example_watcher =
     \<lparr>DeviceWatcher.m_active = False, m_known = [(''/sys/devices/usb1/1-1'', example_keyboard)]\<rparr>"


section \<open>The registry: what the handlers do\<close>

text \<open>The representation invariant holds in every state a service can reach.\<close>

lemma delete_eq_filter: "AList.delete k al = filter (\<lambda>e. fst e \<noteq> k) al"
  by (induction al) auto

lemma list_all_update:
  "list_all P al \<Longrightarrow> P (k, v) \<Longrightarrow> list_all P (AList.update k v al)"
  by (induction al) auto

lemma registry_ok_update:
  "registry_ok devices \<Longrightarrow> devPath (description manager) = path \<Longrightarrow>
   registry_ok (AList.update path manager devices)"
  unfolding registry_ok_def
  by (simp add: AList.distinct_update list_all_update)

lemma registry_ok_delete:
  "registry_ok devices \<Longrightarrow> registry_ok (AList.delete path devices)"
  unfolding registry_ok_def
  by (simp add: AList.distinct_delete) (simp add: delete_eq_filter list_all_iff)

lemma onDeviceAdded_ok:
  "registry_ok (m_devices s) \<Longrightarrow> registry_ok (m_devices (snd (onDeviceAdded open_device s descr)))"
  by (auto simp: onDeviceAdded_def Description_copy_def Let_def registry_ok_update split: sum.splits)

lemma onDeviceRemoved_ok:
  "registry_ok (m_devices s) \<Longrightarrow> registry_ok (m_devices (snd (onDeviceRemoved s descr)))"
  by (auto simp: onDeviceRemoved_def Let_def registry_ok_delete split: option.splits)

lemma deliver_ok:
  "registry_ok (m_devices s) \<Longrightarrow> registry_ok (m_devices (snd (deliver open_device s sg)))"
  by (cases sg) (simp_all add: onDeviceAdded_ok onDeviceRemoved_ok)

lemma deliver_all_ok:
  "registry_ok (m_devices s) \<Longrightarrow> registry_ok (m_devices (snd (deliver_all open_device s signals)))"
proof (induction signals arbitrary: s)
  case Nil
  then show ?case by simp
next
  case (Cons sg signals)
  have "registry_ok (m_devices (snd (deliver open_device s sg)))"
    using Cons.prems by (rule deliver_ok)
  from Cons.IH [OF this] show ?case
    by (simp add: split_def Let_def)
qed

lemma Service_setActive_ok:
  "registry_ok (m_devices s) \<Longrightarrow>
   registry_ok (m_devices (snd (Service_setActive visible enumeration open_device s active)))"
  using deliver_all_ok [of "s\<lparr>m_deviceWatcher := w\<rparr>" for w]
  by (simp add: Service_setActive_def split_def Let_def)

lemma service_reachable_ok: "service_reachable s \<Longrightarrow> registry_ok (m_devices s)"
proof (induction rule: service_reachable.induct)
  case (service_new config)
  show ?case by (simp add: Service_new_def registry_ok_def)
next
  case (service_added s open_device descr)
  then show ?case by (simp add: onDeviceAdded_ok)
next
  case (service_removed s descr)
  then show ?case by (simp add: onDeviceRemoved_ok)
next
  case (service_stopped s path sender)
  then show ?case by (simp add: onDeviceLoopFinished_def onDeviceRemoved_ok)
next
  case (service_setActive s visible enumeration open_device active)
  then show ?case by (simp add: Service_setActive_ok)
qed

lemma distinct_count_le_1:
  "distinct (map fst al) \<Longrightarrow> length (filter (\<lambda>entry. fst entry = k) al) \<le> Suc 0"
  by (induction al) (auto simp: filter_empty_conv image_iff)

lemma count_update_new:
  "distinct (map fst al) \<Longrightarrow> length (filter (\<lambda>entry. fst entry = k) (AList.update k v al)) = Suc 0"
  by (induction al) (auto simp: filter_empty_conv image_iff)

lemma example_service_eq:
  "example_service =
     \<lparr>m_configuration = example_config, m_deviceWatcher = DeviceWatcher_new, m_active = False,
      m_devices = [(''/devices/usb1/1-1'', example_manager)]\<rparr>"
  by (simp add: example_service_def onDeviceAdded_def example_open_def example_keyboard_def
      Service_new_def Description_copy_def example_manager_def Let_def)

text \<open>
  C10. A removed-notification for a device path that has no manager in the registry does
  nothing: no effect of any kind (so no \<^const>\<open>deviceManagerRemoved\<close> and no \<^const>\<open>quit\<close>),
  and the service is left exactly as it was. The auto-quit test is inside the branch that
  found a manager, so an empty registry with auto-quit enabled does not quit here.
\<close>

theorem removal_of_unknown_path_is_noop:
  "map_of (m_devices s) (devPath descr) = None \<Longrightarrow> onDeviceRemoved s descr = ([], s)"
  by (simp add: onDeviceRemoved_def)

theorem removal_of_unknown_path_is_noop_witness:
  "map_of (m_devices (Service_new example_config)) (devPath example_keyboard) = None
   \<and> autoQuit (m_configuration (Service_new example_config))
   \<and> m_devices (Service_new example_config) = []
   \<and> onDeviceRemoved (Service_new example_config) example_keyboard
       = ([], Service_new example_config)"
proof -
  have h: "map_of (m_devices (Service_new example_config)) (devPath example_keyboard) = None"
    by (simp add: Service_new_def)
  show ?thesis
    using h removal_of_unknown_path_is_noop [OF h]
    by (simp add: Service_new_def example_config_def)
qed

text \<open>
  C6. When a removed-notification empties the registry (it held something before the call
  and holds nothing after it), \<^verbatim>\<open>QCoreApplication::quit\<close> is called exactly once if the
  auto-quit option is set and not at all if it is not.
\<close>

theorem auto_quit_on_emptying_removal:
  assumes "m_devices s \<noteq> []" and "m_devices (snd (onDeviceRemoved s descr)) = []"
  shows "count_list (fst (onDeviceRemoved s descr)) quit
           = (if autoQuit (m_configuration s) then 1 else 0)"
  using assms
  by (auto simp: onDeviceRemoved_def Let_def split: option.splits)

theorem auto_quit_on_emptying_removal_witness:
  "m_devices example_service \<noteq> []
   \<and> m_devices (snd (onDeviceRemoved example_service example_keyboard)) = []
   \<and> count_list (fst (onDeviceRemoved example_service example_keyboard)) quit = 1
   \<and> count_list
        (fst (onDeviceRemoved (example_service\<lparr>m_configuration := \<lparr>autoQuit = False\<rparr>\<rparr>)
           example_keyboard)) quit = 0"
proof -
  let ?quiet = "example_service\<lparr>m_configuration := \<lparr>autoQuit = False\<rparr>\<rparr>"
  have a: "m_devices example_service \<noteq> []" and a': "m_devices ?quiet \<noteq> []"
    by (simp_all add: example_service_eq)
  have b: "m_devices (snd (onDeviceRemoved example_service example_keyboard)) = []"
    by (simp add: example_service_eq onDeviceRemoved_def example_keyboard_def)
  have b': "m_devices (snd (onDeviceRemoved ?quiet example_keyboard)) = []"
    by (simp add: example_service_eq onDeviceRemoved_def example_keyboard_def)
  show ?thesis
    using a b auto_quit_on_emptying_removal [OF a b] auto_quit_on_emptying_removal [OF a' b']
    by (simp add: example_service_eq example_config_def)
qed

text \<open>
  C4. When the open attempt of an added-notification fails with a \<^verbatim>\<open>Device::error\<close>: the
  hid version error leaves no trace at all, any other code leaves exactly one line on the
  error stream; in both cases no \<^const>\<open>deviceManagerAdded\<close> is emitted, the service is
  unchanged, and the handler returns, so the notifications that follow are handled from
  the unchanged state.
\<close>

theorem failed_open_is_contained:
  assumes "open_device (devNode descr) = Inl error"
  shows "onDeviceAdded open_device s descr
           = (if code error = KEYLEDS_ERROR_HIDVERSION then []
              else [cerr_Not_opening (devNode descr) (what error)], s)
         \<and> filter is_deviceManagerAdded (fst (onDeviceAdded open_device s descr)) = []
         \<and> m_devices (snd (onDeviceAdded open_device s descr)) = m_devices s
         \<and> deliver_all open_device s (deviceAdded descr # later)
             = (fst (onDeviceAdded open_device s descr) @ fst (deliver_all open_device s later),
                snd (deliver_all open_device s later))"
  using assms by (simp add: onDeviceAdded_def split_def Let_def)

theorem failed_open_is_contained_witness:
  "example_refuse (devNode example_keyboard)
     = Inl \<lparr>code = KEYLEDS_ERROR_other 1, what = ''permission denied''\<rparr>
   \<and> onDeviceAdded example_refuse example_service example_keyboard
       = ([cerr_Not_opening ''/dev/hidraw0'' ''permission denied''], example_service)
   \<and> deliver_all example_refuse example_service
        [deviceAdded example_keyboard, deviceRemoved example_keyboard]
       = (cerr_Not_opening ''/dev/hidraw0'' ''permission denied''
            # fst (onDeviceRemoved example_service example_keyboard),
          snd (onDeviceRemoved example_service example_keyboard))"
proof -
  have h: "example_refuse (devNode example_keyboard)
             = Inl \<lparr>code = KEYLEDS_ERROR_other 1, what = ''permission denied''\<rparr>"
    by (simp add: example_refuse_def)
  show ?thesis
    using h failed_open_is_contained [of example_refuse example_keyboard
        "\<lparr>code = KEYLEDS_ERROR_other 1, what = ''permission denied''\<rparr>"
        example_service "[deviceRemoved example_keyboard]"]
    by (simp add: split_def Let_def) (simp add: example_keyboard_def)
qed

text \<open>
  C5, as the claim states it, fails: on a service with an empty registry the open of the
  example keyboard succeeds, and the \<^const>\<open>deviceManagerAdded\<close> signal is emitted while the
  registry does not hold the manager.
\<close>

theorem added_signal_before_insertion_counterexample:
  "example_open (devNode example_keyboard) = Inr example_device
   \<and> \<not> notified_after_insertion (devPath example_keyboard)
         (fst (onDeviceAdded example_open (Service_new example_config) example_keyboard))"
  by (simp add: notified_after_insertion_def onDeviceAdded_def example_open_def
      example_keyboard_def Service_new_def Let_def)

text \<open>
  C5, amended. On an added-notification whose open succeeds the handler builds the manager,
  emits \<^const>\<open>deviceManagerAdded\<close> first of all and exactly once, and stores the manager under
  the device path afterwards: the signal is delivered with the registry as it was before
  the notification, and the manager is in the registry when the handler returns.
\<close>

theorem added_signal_before_insertion:
  assumes "open_device (devNode descr) = Inr dev"
  shows "(let manager = \<lparr>description = Description_copy descr, device = dev,
                         configuration = m_configuration s\<rparr>;
              (effects, s') = onDeviceAdded open_device s descr
          in hd effects = deviceManagerAdded manager (m_devices s)
             \<and> filter is_deviceManagerAdded effects = [deviceManagerAdded manager (m_devices s)]
             \<and> m_devices s' = AList.update (devPath descr) manager (m_devices s)
             \<and> map_of (m_devices s') (devPath descr) = Some manager)"
  using assms
  by (simp add: onDeviceAdded_def Let_def AList.update_conv' split: option.splits)

theorem added_signal_before_insertion_witness:
  "example_open (devNode example_keyboard) = Inr example_device
   \<and> hd (fst (onDeviceAdded example_open (Service_new example_config) example_keyboard))
       = deviceManagerAdded example_manager []
   \<and> m_devices (snd (onDeviceAdded example_open (Service_new example_config) example_keyboard))
       = [(''/devices/usb1/1-1'', example_manager)]"
proof -
  have h: "example_open (devNode example_keyboard) = Inr example_device"
    by (simp add: example_open_def example_keyboard_def)
  show ?thesis
    using h added_signal_before_insertion [of example_open example_keyboard example_device
        "Service_new example_config"]
    by (simp add: Let_def split_def Service_new_def Description_copy_def example_manager_def)
      (simp add: example_keyboard_def)
qed

text \<open>
  C3. In every state the service can reach, the registry holds at most one manager under
  any device path, however many added-notifications for that path arrived without a
  removed-notification in between. What a repeated added-notification does is fixed: when
  its open succeeds, the manager built from it takes the place of the one stored before
  (exactly one entry under the path, and it is the new manager).
\<close>

theorem one_manager_per_path:
  assumes "service_reachable s"
  shows "managers_at path s \<le> 1
         \<and> (\<forall>open_device descr dev.
              devPath descr = path \<and> open_device (devNode descr) = Inr dev \<longrightarrow>
                managers_at path (snd (onDeviceAdded open_device s descr)) = 1
                \<and> map_of (m_devices (snd (onDeviceAdded open_device s descr))) path
                    = Some \<lparr>description = Description_copy descr, device = dev,
                            configuration = m_configuration s\<rparr>)"
proof -
  have d: "distinct (map fst (m_devices s))"
    using service_reachable_ok [OF assms] by (simp add: registry_ok_def)
  have "managers_at path s \<le> 1"
    using distinct_count_le_1 [OF d] by (simp add: managers_at_def)
  moreover have "managers_at path (snd (onDeviceAdded open_device s descr)) = 1
                 \<and> map_of (m_devices (snd (onDeviceAdded open_device s descr))) path
                    = Some \<lparr>description = Description_copy descr, device = dev,
                            configuration = m_configuration s\<rparr>"
    if "devPath descr = path \<and> open_device (devNode descr) = Inr dev"
    for open_device descr dev
    using that count_update_new [OF d]
    by (simp add: managers_at_def onDeviceAdded_def Let_def AList.update_conv')
  ultimately show ?thesis by blast
qed

theorem one_manager_per_path_witness:
  "service_reachable example_service
   \<and> managers_at ''/devices/usb1/1-1'' example_service \<le> 1
   \<and> managers_at ''/devices/usb1/1-1''
        (snd (onDeviceAdded example_reopen example_service example_keyboard)) = 1
   \<and> map_of (m_devices (snd (onDeviceAdded example_reopen example_service example_keyboard)))
        ''/devices/usb1/1-1''
       = Some \<lparr>description = example_keyboard, device = example_replacement,
               configuration = example_config\<rparr>"
proof -
  have r: "service_reachable example_service"
    unfolding example_service_def by (intro service_added service_new)
  have p: "devPath example_keyboard = ''/devices/usb1/1-1''"
    by (simp add: example_keyboard_def)
  have o: "example_reopen (devNode example_keyboard) = Inr example_replacement"
    by (simp add: example_reopen_def)
  have c: "m_configuration example_service = example_config"
    by (simp add: example_service_eq)
  from one_manager_per_path [OF r, of "''/devices/usb1/1-1''"] p o
  have "managers_at ''/devices/usb1/1-1'' example_service \<le> 1
        \<and> managers_at ''/devices/usb1/1-1''
             (snd (onDeviceAdded example_reopen example_service example_keyboard)) = 1
        \<and> map_of (m_devices (snd (onDeviceAdded example_reopen example_service example_keyboard)))
             ''/devices/usb1/1-1''
            = Some \<lparr>description = Description_copy example_keyboard,
                    device = example_replacement,
                    configuration = m_configuration example_service\<rparr>"
    by blast
  then show ?thesis using r by (simp add: c Description_copy_def)
qed

text \<open>
  C8. The slot for a manager's own \<^verbatim>\<open>stopped()\<close> signal is the removal handler applied to
  the description the manager remembers. For a manager that is in a reachable registry this
  is the removal of that very manager: its entry is erased, \<^const>\<open>deviceManagerRemoved\<close> is
  emitted for it, and the auto-quit test runs on the registry after the erasure.
\<close>

theorem stop_is_removal:
  "onDeviceLoopFinished s sender = onDeviceRemoved s (description sender)
   \<and> (service_reachable s \<and> (path, sender) \<in> set (m_devices s) \<longrightarrow>
        onDeviceLoopFinished s sender
          = ([cout_Removing sender,
              deviceManagerRemoved sender (AList.delete path (m_devices s))]
             @ (if AList.delete path (m_devices s) = [] \<and> autoQuit (m_configuration s)
                then [quit] else [])
             @ [destroyed sender],
             s\<lparr>m_devices := AList.delete path (m_devices s)\<rparr>))"
proof -
  have "onDeviceRemoved s (description sender)
          = ([cout_Removing sender,
              deviceManagerRemoved sender (AList.delete path (m_devices s))]
             @ (if AList.delete path (m_devices s) = [] \<and> autoQuit (m_configuration s)
                then [quit] else [])
             @ [destroyed sender],
             s\<lparr>m_devices := AList.delete path (m_devices s)\<rparr>)"
    if r: "service_reachable s" and m: "(path, sender) \<in> set (m_devices s)"
  proof -
    have ok: "registry_ok (m_devices s)" using r by (rule service_reachable_ok)
    have p: "devPath (description sender) = path"
      using ok m by (auto simp: registry_ok_def list_all_iff)
    have "map_of (m_devices s) path = Some sender"
      using ok m by (simp add: registry_ok_def)
    then show ?thesis by (simp add: onDeviceRemoved_def p Let_def)
  qed
  then show ?thesis by (simp add: onDeviceLoopFinished_def)
qed

theorem stop_is_removal_witness:
  "service_reachable example_service
   \<and> (''/devices/usb1/1-1'', example_manager) \<in> set (m_devices example_service)
   \<and> onDeviceLoopFinished example_service example_manager
       = onDeviceRemoved example_service example_keyboard
   \<and> onDeviceLoopFinished example_service example_manager
       = ([cout_Removing example_manager, deviceManagerRemoved example_manager [], quit,
           destroyed example_manager],
          example_service\<lparr>m_devices := []\<rparr>)"
proof -
  have r: "service_reachable example_service"
    unfolding example_service_def by (intro service_added service_new)
  have m: "(''/devices/usb1/1-1'', example_manager) \<in> set (m_devices example_service)"
    by (simp add: example_service_eq)
  have d: "description example_manager = example_keyboard"
    by (simp add: example_manager_def)
  note t = stop_is_removal [of example_service example_manager "''/devices/usb1/1-1''"]
  have e: "onDeviceLoopFinished example_service example_manager
             = onDeviceRemoved example_service example_keyboard"
    using t by (simp add: d)
  from t r m have "onDeviceLoopFinished example_service example_manager
          = ([cout_Removing example_manager,
              deviceManagerRemoved example_manager
                (AList.delete ''/devices/usb1/1-1'' (m_devices example_service))]
             @ (if AList.delete ''/devices/usb1/1-1'' (m_devices example_service) = []
                   \<and> autoQuit (m_configuration example_service)
                then [quit] else [])
             @ [destroyed example_manager],
             example_service\<lparr>m_devices :=
               AList.delete ''/devices/usb1/1-1'' (m_devices example_service)\<rparr>)"
    by blast
  also have "\<dots> = ([cout_Removing example_manager, deviceManagerRemoved example_manager [], quit,
           destroyed example_manager],
          example_service\<lparr>m_devices := []\<rparr>)"
    by (simp add: example_service_eq example_config_def)
  finally show ?thesis using r m e by simp
qed

text \<open>
  C9. The destructor first calls into the watcher to deactivate it, which emits no signal,
  and then releases every manager still in the registry. No \<^const>\<open>deviceManagerRemoved\<close> is
  emitted, whatever the registry holds.
\<close>

theorem teardown_is_silent:
  "Service_destructor visible enumeration open_device s
     = (watcher_setActive False # map (destroyed \<circ> snd) (m_devices s),
        s\<lparr>m_deviceWatcher := (m_deviceWatcher s)\<lparr>DeviceWatcher.m_active := False\<rparr>,
          m_active := False, m_devices := []\<rparr>)
   \<and> filter is_deviceManagerRemoved
        (fst (Service_destructor visible enumeration open_device s)) = []"
proof -
  have w: "DeviceWatcher_setActive visible enumeration (m_deviceWatcher s) False
             = ([], (m_deviceWatcher s)\<lparr>DeviceWatcher.m_active := False\<rparr>)"
    by (cases "DeviceWatcher.m_active (m_deviceWatcher s)")
      (simp_all add: DeviceWatcher_setActive_def)
  have a: "Service_setActive visible enumeration open_device s False
             = ([watcher_setActive False],
                s\<lparr>m_deviceWatcher := (m_deviceWatcher s)\<lparr>DeviceWatcher.m_active := False\<rparr>,
                  m_active := False\<rparr>)"
    by (simp add: Service_setActive_def w)
  have f: "filter is_deviceManagerRemoved (map (destroyed \<circ> snd) devices) = []"
    for devices :: "(string \<times> DeviceManager) list"
    by (induction devices) simp_all
  show ?thesis
    by (simp add: Service_destructor_def a f)
qed


section \<open>The match filter\<close>

lemma match_entries_iff:
  "match_entries required found \<longleftrightarrow> (\<forall>(key, val) \<in> set required. map_of found key = Some val)"
  by (induction required found rule: match_entries.induct) (auto split: option.splits)

lemma match_tags_iff:
  "match_tags required present \<longleftrightarrow> (\<forall>tag \<in> set required. tag \<in> set present)"
  by (induction required) auto

text \<open>
  C7. \<^const>\<open>isVisible\<close> accepts a description exactly when all five rules hold together: the
  subsystem rule is unset or equal to the description's subsystem, the device-type rule is
  unset or equal to its device type, every required property is among its properties with
  the required value, every required tag is in its tag list, and every required attribute
  is among its attributes with the required value.
\<close>

theorem isVisible_is_conjunction:
  "isVisible f dev \<longleftrightarrow>
     (m_matchSubsystem f = [] \<or> m_matchSubsystem f = subsystem dev)
     \<and> (m_matchDevType f = [] \<or> m_matchDevType f = devType dev)
     \<and> (\<forall>(key, val) \<in> set (m_matchProperties f). map_of (properties dev) key = Some val)
     \<and> (\<forall>tag \<in> set (m_matchTags f). tag \<in> set (tags dev))
     \<and> (\<forall>(key, val) \<in> set (m_matchAttributes f). map_of (attributes dev) key = Some val)"
  unfolding isVisible_def match_entries_iff match_tags_iff by auto

lemma example_filter_eq:
  "example_filter =
     \<lparr>m_matchSubsystem = ''usb'', m_matchDevType = [],
      m_matchProperties = [(''ID_INPUT'', ''1'')], m_matchTags = [''keyboard''],
      m_matchAttributes = []\<rparr>"
  by (simp add: example_filter_def addProperty_def addTag_def setSubsystem_def
      FilteredDeviceWatcher_new_def)

theorem isVisible_is_conjunction_witness:
  "isVisible example_filter example_keyboard \<and> \<not> isVisible example_filter example_hub"
  using isVisible_is_conjunction [of example_filter example_keyboard]
    isVisible_is_conjunction [of example_filter example_hub]
  by (simp add: example_filter_eq example_keyboard_def example_hub_def)


section \<open>The discovery engine: what a scan does\<close>

text \<open>
  The first pass appends, in the order of the enumeration, one entry for each syspath that
  is visible in the enumeration and not a key of the known map.
\<close>

lemma scan_present_shape:
  "\<exists>devs. scan_present visible enumeration known
            = (map deviceAdded devs, known @ map (\<lambda>dev. (sysPath dev, dev)) devs)
          \<and> set devs \<subseteq> {dev \<in> set enumeration. visible dev}
          \<and> distinct (map sysPath devs)
          \<and> sysPath ` set devs
              = sysPath ` {dev \<in> set enumeration. visible dev} - fst ` set known"
proof (induction enumeration arbitrary: known)
  case Nil
  show ?case by (intro exI [of _ "[]"]) simp
next
  case (Cons dev rest)
  show ?case
  proof (cases "visible dev \<and> map_of known (sysPath dev) = None")
    case True
    then have fresh: "sysPath dev \<notin> fst ` set known"
      by (simp add: map_of_eq_None_iff)
    from Cons.IH [of "known @ [(sysPath dev, dev)]"] obtain devs where
      eq: "scan_present visible rest (known @ [(sysPath dev, dev)])
             = (map deviceAdded devs,
                (known @ [(sysPath dev, dev)]) @ map (\<lambda>dev. (sysPath dev, dev)) devs)"
      and sub: "set devs \<subseteq> {dev \<in> set rest. visible dev}"
      and dist: "distinct (map sysPath devs)"
      and img: "sysPath ` set devs
                  = sysPath ` {dev \<in> set rest. visible dev}
                      - fst ` set (known @ [(sysPath dev, dev)])"
      by blast
    have "scan_present visible (dev # rest) known
            = (map deviceAdded (dev # devs),
               known @ map (\<lambda>dev. (sysPath dev, dev)) (dev # devs))"
      using True eq by simp
    moreover have "set (dev # devs) \<subseteq> {d \<in> set (dev # rest). visible d}"
      using True sub by auto
    moreover have "distinct (map sysPath (dev # devs))"
      using dist img by auto
    moreover have "sysPath ` set (dev # devs)
                     = sysPath ` {d \<in> set (dev # rest). visible d} - fst ` set known"
      using True fresh img by auto
    ultimately show ?thesis by blast
  next
    case False
    from Cons.IH [of known] obtain devs where
      eq: "scan_present visible rest known
             = (map deviceAdded devs, known @ map (\<lambda>dev. (sysPath dev, dev)) devs)"
      and sub: "set devs \<subseteq> {dev \<in> set rest. visible dev}"
      and dist: "distinct (map sysPath devs)"
      and img: "sysPath ` set devs
                  = sysPath ` {dev \<in> set rest. visible dev} - fst ` set known"
      by blast
    have "scan_present visible (dev # rest) known
            = (map deviceAdded devs, known @ map (\<lambda>dev. (sysPath dev, dev)) devs)"
      using False eq by auto
    moreover have "set devs \<subseteq> {d \<in> set (dev # rest). visible d}"
      using sub by auto
    moreover have "sysPath ` set devs
                     = sysPath ` {d \<in> set (dev # rest). visible d} - fst ` set known"
    proof (cases "visible dev")
      case True
      with False have "sysPath dev \<in> fst ` set known"
        by (simp add: map_of_eq_None_iff)
      with img True show ?thesis by auto
    next
      case False
      with img show ?thesis by auto
    qed
    ultimately show ?thesis using dist by blast
  qed
qed

lemma scan_absent_eq:
  "scan_absent present known
     = (map (deviceRemoved \<circ> snd) (filter (\<lambda>entry. fst entry \<notin> set present) known),
        filter (\<lambda>entry. fst entry \<in> set present) known)"
  by (induction present known rule: scan_absent.induct) (auto simp: Let_def)

lemma scan_shape:
  "\<exists>devs. scan visible enumeration w
            = (map deviceAdded devs
                 @ map (deviceRemoved \<circ> snd)
                     (filter (\<lambda>entry. fst entry \<notin> sysPath ` {dev \<in> set enumeration. visible dev})
                        (m_known w)),
               w\<lparr>m_known :=
                   filter (\<lambda>entry. fst entry \<in> sysPath ` {dev \<in> set enumeration. visible dev})
                     (m_known w)
                   @ map (\<lambda>dev. (sysPath dev, dev)) devs\<rparr>)
          \<and> set devs \<subseteq> {dev \<in> set enumeration. visible dev}
          \<and> distinct (map sysPath devs)
          \<and> sysPath ` set devs
              = sysPath ` {dev \<in> set enumeration. visible dev} - fst ` set (m_known w)"
proof -
  let ?present = "sysPath ` {dev \<in> set enumeration. visible dev}"
  from scan_present_shape [of visible enumeration "m_known w"] obtain devs where
    eq: "scan_present visible enumeration (m_known w)
           = (map deviceAdded devs, m_known w @ map (\<lambda>dev. (sysPath dev, dev)) devs)"
    and sub: "set devs \<subseteq> {dev \<in> set enumeration. visible dev}"
    and dist: "distinct (map sysPath devs)"
    and img: "sysPath ` set devs = ?present - fst ` set (m_known w)"
    by blast
  have p: "set (map sysPath (filter visible enumeration)) = ?present"
    by auto
  have inside: "\<forall>dev \<in> set devs. sysPath dev \<in> ?present"
    using img by auto
  have f1: "filter (\<lambda>entry. fst entry \<notin> ?present) (map (\<lambda>dev. (sysPath dev, dev)) devs) = []"
    using inside by (simp add: filter_empty_conv)
  have f2: "filter (\<lambda>entry. fst entry \<in> ?present) (map (\<lambda>dev. (sysPath dev, dev)) devs)
              = map (\<lambda>dev. (sysPath dev, dev)) devs"
    using inside by (simp add: filter_id_conv)
  have "scan visible enumeration w
            = (map deviceAdded devs
                 @ map (deviceRemoved \<circ> snd) (filter (\<lambda>entry. fst entry \<notin> ?present) (m_known w)),
               w\<lparr>m_known := filter (\<lambda>entry. fst entry \<in> ?present) (m_known w)
                               @ map (\<lambda>dev. (sysPath dev, dev)) devs\<rparr>)"
    unfolding scan_def eq scan_absent_eq p by (simp add: f1 f2)
  with sub dist img show ?thesis by blast
qed

lemma announces_added:
  "filter (announces path) (map deviceAdded devs)
     = map deviceAdded (filter (\<lambda>dev. sysPath dev = path) devs)"
  by (induction devs) simp_all

lemma announces_removed: "filter (announces path) (map (deviceRemoved \<circ> snd) entries) = []"
  by (induction entries) simp_all

lemma withdraws_added: "filter (withdraws path) (map deviceAdded devs) = []"
  by (induction devs) simp_all

lemma withdraws_removed:
  "filter (withdraws path) (map (deviceRemoved \<circ> snd) entries)
     = map (deviceRemoved \<circ> snd) (filter (\<lambda>entry. sysPath (snd entry) = path) entries)"
  by (induction entries) simp_all

lemma one_with_image:
  "distinct (map f xs) \<Longrightarrow> y \<in> f ` set xs \<Longrightarrow> length (filter (\<lambda>x. f x = y) xs) = Suc 0"
  by (induction xs) (auto simp: filter_empty_conv image_iff)

lemma none_with_image:
  "y \<notin> f ` set xs \<Longrightarrow> filter (\<lambda>x. f x = y) xs = []"
  by (auto simp: filter_empty_conv)

lemma known_ok_keys:
  "known_ok known \<Longrightarrow> entry \<in> set known \<Longrightarrow> sysPath (snd entry) = fst entry"
  by (auto simp: known_ok_def list_all_iff)

lemma known_ok_filter_path:
  "known_ok known \<Longrightarrow>
   filter (\<lambda>entry. sysPath (snd entry) = path) (filter P known)
     = filter (\<lambda>entry. fst entry = path) (filter P known)"
  by (rule filter_cong) (auto dest: known_ok_keys)

lemma scan_present_idle:
  "\<forall>dev \<in> set enumeration. visible dev \<longrightarrow> sysPath dev \<in> fst ` set known \<Longrightarrow>
   scan_present visible enumeration known = ([], known)"
  by (induction enumeration) (auto simp: map_of_eq_None_iff)

lemma scan_present_fresh:
  "distinct (map sysPath enumeration) \<Longrightarrow>
   \<forall>dev \<in> set enumeration. visible dev \<longrightarrow> sysPath dev \<notin> fst ` set known \<Longrightarrow>
   scan_present visible enumeration known
     = (map deviceAdded (filter visible enumeration),
        known @ map (\<lambda>dev. (sysPath dev, dev)) (filter visible enumeration))"
proof (induction enumeration arbitrary: known)
  case Nil
  show ?case by simp
next
  case (Cons dev rest)
  have d: "distinct (map sysPath rest)" and n: "sysPath dev \<notin> sysPath ` set rest"
    using Cons.prems(1) by simp_all
  show ?case
  proof (cases "visible dev")
    case True
    have "\<forall>d \<in> set rest. visible d \<longrightarrow> sysPath d \<notin> fst ` set (known @ [(sysPath dev, dev)])"
      using Cons.prems(2) n by (auto simp: image_iff)
    from Cons.IH [OF d this] Cons.prems(2) True show ?thesis
      by (simp add: map_of_eq_None_iff)
  next
    case False
    have "\<forall>d \<in> set rest. visible d \<longrightarrow> sysPath d \<notin> fst ` set known"
      using Cons.prems(2) by simp
    from Cons.IH [OF d this] False show ?thesis by simp
  qed
qed

lemma keys_filter:
  "fst ` set (filter (\<lambda>entry. fst entry \<in> A) known) = fst ` set known \<inter> A"
  by (induction known) auto

lemma filter_keys_inside:
  "fst ` set known \<subseteq> A \<Longrightarrow> filter (\<lambda>entry. fst entry \<in> A) known = known"
  by (induction known) auto

lemma filter_keys_outside:
  "fst ` set known \<subseteq> A \<Longrightarrow> filter (\<lambda>entry. fst entry \<notin> A) known = []"
  by (induction known) auto

lemma scan_twice:
  "scan visible enumeration (snd (scan visible enumeration w))
     = ([], snd (scan visible enumeration w))"
proof -
  let ?present = "sysPath ` {dev \<in> set enumeration. visible dev}"
  from scan_shape [of visible enumeration w] obtain devs where
    eq: "scan visible enumeration w
            = (map deviceAdded devs
                 @ map (deviceRemoved \<circ> snd) (filter (\<lambda>entry. fst entry \<notin> ?present) (m_known w)),
               w\<lparr>m_known := filter (\<lambda>entry. fst entry \<in> ?present) (m_known w)
                               @ map (\<lambda>dev. (sysPath dev, dev)) devs\<rparr>)"
    and img: "sysPath ` set devs = ?present - fst ` set (m_known w)"
    by blast
  define known where
    "known = filter (\<lambda>entry. fst entry \<in> ?present) (m_known w)
               @ map (\<lambda>dev. (sysPath dev, dev)) devs"
  have k1: "fst ` set (filter (\<lambda>entry. fst entry \<in> ?present) (m_known w))
              = fst ` set (m_known w) \<inter> ?present"
    by (rule keys_filter)
  have k2: "fst ` set (map (\<lambda>dev. (sysPath dev, dev)) devs) = sysPath ` set devs"
    by (simp add: image_image)
  have "fst ` set known = (fst ` set (m_known w) \<inter> ?present) \<union> sysPath ` set devs"
    unfolding known_def set_append image_Un k1 k2 ..
  also have "\<dots> = ?present" unfolding img by blast
  finally have keys: "fst ` set known = ?present" .
  have a: "scan_present visible enumeration known = ([], known)"
  proof (rule scan_present_idle, intro ballI impI)
    fix dev assume "dev \<in> set enumeration" "visible dev"
    then have "sysPath dev \<in> ?present" by blast
    then show "sysPath dev \<in> fst ` set known" unfolding keys .
  qed
  have p: "set (map sysPath (filter visible enumeration)) = ?present"
    by auto
  have sub: "fst ` set known \<subseteq> ?present" using keys by simp
  have b: "scan_absent (map sysPath (filter visible enumeration)) known = ([], known)"
    unfolding scan_absent_eq p
    by (simp only: filter_keys_inside [OF sub] filter_keys_outside [OF sub] list.map)
  have "snd (scan visible enumeration w) = w\<lparr>m_known := known\<rparr>"
    unfolding eq known_def by simp
  then show ?thesis
    by (simp add: scan_def a b)
qed

text \<open>
  C1. One call of \<^const>\<open>scan\<close> on a well-formed known map (no key twice, every entry under
  the syspath of its description), in the order of the conjuncts:
  \<^item> a visible device of the enumeration whose syspath is not a key of the known map gets
    exactly one \<^const>\<open>deviceAdded\<close> and is a key afterwards;
  \<^item> an entry of the known map whose key is no visible device of the enumeration gets
    exactly one \<^const>\<open>deviceRemoved\<close>, carrying the remembered description, and is no key
    afterwards;
  \<^item> an entry whose key is a visible device of the enumeration gets no signal of either
    kind and keeps the description it had, whatever the enumeration now says;
  \<^item> no other signal is emitted;
  \<^item> on an empty known map every visible device gets exactly one \<^const>\<open>deviceAdded\<close>,
    nothing else is emitted, and when the enumeration lists no syspath twice the signals
    are the visible devices in order;
  \<^item> scanning the same enumeration again emits nothing and changes nothing.
\<close>

theorem scan_diffs_against_known:
  assumes ok: "known_ok (m_known w)"
    and run: "scan visible enumeration w = (signals, w')"
  shows "(\<forall>dev \<in> set enumeration.
            visible dev \<and> sysPath dev \<notin> fst ` set (m_known w) \<longrightarrow>
              length (filter (announces (sysPath dev)) signals) = 1
              \<and> sysPath dev \<in> fst ` set (m_known w'))
         \<and> (\<forall>(path, dev) \<in> set (m_known w).
              path \<notin> sysPath ` {d \<in> set enumeration. visible d} \<longrightarrow>
                length (filter (withdraws path) signals) = 1
                \<and> deviceRemoved dev \<in> set signals
                \<and> path \<notin> fst ` set (m_known w'))
         \<and> (\<forall>(path, dev) \<in> set (m_known w).
              path \<in> sysPath ` {d \<in> set enumeration. visible d} \<longrightarrow>
                (\<forall>sg \<in> set signals. \<not> announces path sg \<and> \<not> withdraws path sg)
                \<and> map_of (m_known w') path = Some dev)
         \<and> (\<forall>sg \<in> set signals.
              (\<exists>dev \<in> set enumeration.
                 sg = deviceAdded dev \<and> visible dev \<and> sysPath dev \<notin> fst ` set (m_known w))
              \<or> (\<exists>(path, dev) \<in> set (m_known w).
                    sg = deviceRemoved dev
                    \<and> path \<notin> sysPath ` {d \<in> set enumeration. visible d}))
         \<and> (m_known w = [] \<longrightarrow>
              (\<forall>dev \<in> set enumeration.
                 visible dev \<longrightarrow> length (filter (announces (sysPath dev)) signals) = 1)
              \<and> (\<forall>sg \<in> set signals. \<exists>dev. sg = deviceAdded dev)
              \<and> (distinct (map sysPath enumeration) \<longrightarrow>
                    signals = map deviceAdded (filter visible enumeration)))
         \<and> scan visible enumeration w' = ([], w')"
proof -
  let ?present = "sysPath ` {d \<in> set enumeration. visible d}"
  let ?gone = "filter (\<lambda>entry. fst entry \<notin> ?present) (m_known w)"
  let ?kept = "filter (\<lambda>entry. fst entry \<in> ?present) (m_known w)"
  from scan_shape [of visible enumeration w] run obtain devs where
    sigs: "signals = map deviceAdded devs @ map (deviceRemoved \<circ> snd) ?gone"
    and w': "w' = w\<lparr>m_known := ?kept @ map (\<lambda>dev. (sysPath dev, dev)) devs\<rparr>"
    and sub: "set devs \<subseteq> {dev \<in> set enumeration. visible dev}"
    and dist: "distinct (map sysPath devs)"
    and img: "sysPath ` set devs = ?present - fst ` set (m_known w)"
    by auto
  have dk: "distinct (map fst (m_known w))"
    using ok by (simp add: known_ok_def)
  have keys': "fst ` set (m_known w') = (fst ` set (m_known w) \<inter> ?present) \<union> sysPath ` set devs"
    unfolding w' by (simp add: image_Un image_image keys_filter del: set_filter)
  have n_ann: "length (filter (announces path) signals)
                 = length (filter (\<lambda>dev. sysPath dev = path) devs)" for path
    unfolding sigs by (simp add: announces_added announces_removed)
  have n_wd: "length (filter (withdraws path) signals)
                = length (filter (\<lambda>entry. fst entry = path) ?gone)" for path
    unfolding sigs
    by (simp only: filter_append withdraws_added withdraws_removed
        known_ok_filter_path [OF ok] append_Nil length_map)
  have part1: "length (filter (announces (sysPath dev)) signals) = 1
               \<and> sysPath dev \<in> fst ` set (m_known w')"
    if "dev \<in> set enumeration" "visible dev \<and> sysPath dev \<notin> fst ` set (m_known w)" for dev
  proof -
    have "sysPath dev \<in> sysPath ` set devs"
      unfolding img using that by blast
    then show ?thesis
      using one_with_image [OF dist] by (simp add: n_ann keys')
  qed
  have part2: "length (filter (withdraws path) signals) = 1
               \<and> deviceRemoved dev \<in> set signals
               \<and> path \<notin> fst ` set (m_known w')"
    if "(path, dev) \<in> set (m_known w)" "path \<notin> ?present" for path dev
  proof -
    have g: "(path, dev) \<in> set ?gone" using that by simp
    have "distinct (map fst ?gone)" using dk by (rule distinct_map_filter)
    moreover have "path \<in> fst ` set ?gone" using g by (rule rev_image_eqI) simp
    ultimately have "length (filter (\<lambda>entry. fst entry = path) ?gone) = Suc 0"
      by (rule one_with_image)
    moreover have "deviceRemoved dev \<in> set signals"
      unfolding sigs using g by (auto simp: image_iff)
    moreover have "path \<notin> fst ` set (m_known w')"
      unfolding keys' img using that(2) by blast
    ultimately show ?thesis by (simp add: n_wd)
  qed
  have part3: "(\<forall>sg \<in> set signals. \<not> announces path sg \<and> \<not> withdraws path sg)
               \<and> map_of (m_known w') path = Some dev"
    if "(path, dev) \<in> set (m_known w)" "path \<in> ?present" for path dev
  proof -
    have "path \<in> fst ` set (m_known w)"
      using that(1) by (rule rev_image_eqI) simp
    then have "path \<notin> sysPath ` set devs"
      unfolding img by blast
    then have "filter (\<lambda>dev. sysPath dev = path) devs = []"
      by (rule none_with_image)
    then have "filter (announces path) signals = []"
      unfolding sigs by (simp add: announces_added announces_removed)
    moreover have "filter (withdraws path) signals = []"
    proof -
      have "filter (\<lambda>entry. fst entry = path) ?gone = []"
        using that(2) by (auto simp: filter_empty_conv)
      then have "length (filter (withdraws path) signals) = 0"
        by (simp only: n_wd list.size)
      then show ?thesis by simp
    qed
    moreover have "map_of (m_known w') path = Some dev"
    proof -
      have "(path, dev) \<in> set ?kept" using that by simp
      moreover have "distinct (map fst ?kept)" using dk by (rule distinct_map_filter)
      ultimately have "map_of ?kept path = Some dev" by (simp del: set_filter)
      then show ?thesis unfolding w' by (simp add: map_add_Some_iff del: set_filter)
    qed
    ultimately show ?thesis by (simp add: filter_empty_conv)
  qed
  have part4: "(\<exists>dev \<in> set enumeration.
                 sg = deviceAdded dev \<and> visible dev \<and> sysPath dev \<notin> fst ` set (m_known w))
              \<or> (\<exists>(path, dev) \<in> set (m_known w).
                    sg = deviceRemoved dev \<and> path \<notin> ?present)"
    if "sg \<in> set signals" for sg
  proof -
    from that consider dev where "dev \<in> set devs" "sg = deviceAdded dev"
      | entry where "entry \<in> set ?gone" "sg = deviceRemoved (snd entry)"
      unfolding sigs by auto
    then show ?thesis
    proof cases
      case 1
      then have "dev \<in> set enumeration" "visible dev" using sub by auto
      moreover have "sysPath dev \<notin> fst ` set (m_known w)"
        using img 1(1) by blast
      ultimately show ?thesis using 1(2) by blast
    next
      case 2
      then have "(fst entry, snd entry) \<in> set (m_known w)" "fst entry \<notin> ?present"
        by simp_all
      then show ?thesis using 2(2) by blast
    qed
  qed
  have part5: "(\<forall>dev \<in> set enumeration.
                 visible dev \<longrightarrow> length (filter (announces (sysPath dev)) signals) = 1)
              \<and> (\<forall>sg \<in> set signals. \<exists>dev. sg = deviceAdded dev)
              \<and> (distinct (map sysPath enumeration) \<longrightarrow>
                    signals = map deviceAdded (filter visible enumeration))"
    if empty: "m_known w = []"
  proof -
    have a: "length (filter (announces (sysPath dev)) signals) = 1"
      if "dev \<in> set enumeration" "visible dev" for dev
      using part1 [of dev] that empty by simp
    have b: "\<exists>dev. sg = deviceAdded dev" if "sg \<in> set signals" for sg
      using that unfolding sigs by (auto simp: empty)
    have c: "signals = map deviceAdded (filter visible enumeration)"
      if "distinct (map sysPath enumeration)"
      using run scan_present_fresh [OF that, of visible "[]"]
      by (simp add: scan_def empty scan_absent_eq split_def)
    from a b c show ?thesis by blast
  qed
  have part6: "scan visible enumeration w' = ([], w')"
    using scan_twice [of visible enumeration w] run by simp
  have c1: "\<forall>dev \<in> set enumeration.
            visible dev \<and> sysPath dev \<notin> fst ` set (m_known w) \<longrightarrow>
              length (filter (announces (sysPath dev)) signals) = 1
              \<and> sysPath dev \<in> fst ` set (m_known w')"
    by (intro ballI impI part1; assumption)
  have c2: "\<forall>(path, dev) \<in> set (m_known w).
              path \<notin> ?present \<longrightarrow>
                length (filter (withdraws path) signals) = 1
                \<and> deviceRemoved dev \<in> set signals
                \<and> path \<notin> fst ` set (m_known w')"
    by (intro ballI, simp only: split_beta, intro impI part2; simp)
  have c3: "\<forall>(path, dev) \<in> set (m_known w).
              path \<in> ?present \<longrightarrow>
                (\<forall>sg \<in> set signals. \<not> announces path sg \<and> \<not> withdraws path sg)
                \<and> map_of (m_known w') path = Some dev"
    by (intro ballI, simp only: split_beta, intro impI part3; simp)
  have c4: "\<forall>sg \<in> set signals.
              (\<exists>dev \<in> set enumeration.
                 sg = deviceAdded dev \<and> visible dev \<and> sysPath dev \<notin> fst ` set (m_known w))
              \<or> (\<exists>(path, dev) \<in> set (m_known w).
                    sg = deviceRemoved dev \<and> path \<notin> ?present)"
    by (intro ballI part4; assumption)
  have c5: "m_known w = [] \<longrightarrow>
              (\<forall>dev \<in> set enumeration.
                 visible dev \<longrightarrow> length (filter (announces (sysPath dev)) signals) = 1)
              \<and> (\<forall>sg \<in> set signals. \<exists>dev. sg = deviceAdded dev)
              \<and> (distinct (map sysPath enumeration) \<longrightarrow>
                    signals = map deviceAdded (filter visible enumeration))"
    by (intro impI part5; assumption)
  show ?thesis
    by (intro conjI c1 c2 c3 c4 c5 part6)
qed


lemma example_visible:
  "isVisible example_filter example_keyboard" "\<not> isVisible example_filter example_hub"
  by (simp_all add: isVisible_def example_filter_eq example_keyboard_def example_hub_def)

lemma example_sysPath:
  "sysPath example_keyboard = ''/sys/devices/usb1/1-1''"
  "sysPath example_hub = ''/sys/devices/usb1/1-2''"
  by (simp_all add: example_keyboard_def example_hub_def)

lemma example_scan_first:
  "scan (isVisible example_filter) [example_keyboard, example_hub] DeviceWatcher_new
     = ([deviceAdded example_keyboard], example_watcher)"
  by (simp add: scan_def DeviceWatcher_new_def example_watcher_def example_visible example_sysPath)

lemma example_scan_unplugged:
  "scan (isVisible example_filter) [example_hub] example_watcher
     = ([deviceRemoved example_keyboard], DeviceWatcher_new)"
  by (simp add: scan_def DeviceWatcher_new_def example_watcher_def example_visible example_sysPath)

theorem scan_diffs_against_known_witness:
  "known_ok (m_known DeviceWatcher_new)
   \<and> scan (isVisible example_filter) [example_keyboard, example_hub] DeviceWatcher_new
       = ([deviceAdded example_keyboard], example_watcher)
   \<and> ([deviceAdded example_keyboard] :: signal list)
       = map deviceAdded (filter (isVisible example_filter) [example_keyboard, example_hub])
   \<and> scan (isVisible example_filter) [example_keyboard, example_hub] example_watcher
       = ([], example_watcher)
   \<and> known_ok (m_known example_watcher)
   \<and> scan (isVisible example_filter) [example_hub] example_watcher
       = ([deviceRemoved example_keyboard], DeviceWatcher_new)
   \<and> length (filter (withdraws ''/sys/devices/usb1/1-1'') [deviceRemoved example_keyboard]) = 1
   \<and> ''/sys/devices/usb1/1-1'' \<notin> fst ` set (m_known DeviceWatcher_new)"
proof -
  have ok0: "known_ok (m_known DeviceWatcher_new)"
    by (simp add: DeviceWatcher_new_def known_ok_def)
  have ok1: "known_ok (m_known example_watcher)"
    by (simp add: example_watcher_def known_ok_def example_sysPath)
  note first = scan_diffs_against_known [OF ok0 example_scan_first]
  note unplugged = scan_diffs_against_known [OF ok1 example_scan_unplugged]
  have e: "m_known DeviceWatcher_new = []"
    and d: "distinct (map sysPath [example_keyboard, example_hub])"
    by (simp_all add: DeviceWatcher_new_def example_sysPath)
  have m: "(''/sys/devices/usb1/1-1'', example_keyboard) \<in> set (m_known example_watcher)"
    by (simp add: example_watcher_def)
  have none: "{d \<in> set [example_hub]. isVisible example_filter d} = {}"
    using example_visible(2) by auto
  have a: "''/sys/devices/usb1/1-1''
             \<notin> sysPath ` {d \<in> set [example_hub]. isVisible example_filter d}"
    unfolding none by simp
  note first_scan = first [THEN conjunct2, THEN conjunct2, THEN conjunct2, THEN conjunct2,
      THEN conjunct1]
  note again = first [THEN conjunct2, THEN conjunct2, THEN conjunct2, THEN conjunct2,
      THEN conjunct2]
  note gone = bspec [OF unplugged [THEN conjunct2, THEN conjunct1] m]
  from first_scan e d
  have s1: "[deviceAdded example_keyboard]
          = map deviceAdded (filter (isVisible example_filter) [example_keyboard, example_hub])"
    by simp
  from gone a
  have s2: "length (filter (withdraws ''/sys/devices/usb1/1-1'') [deviceRemoved example_keyboard]) = 1"
    and s3: "''/sys/devices/usb1/1-1'' \<notin> fst ` set (m_known DeviceWatcher_new)"
    by simp_all
  show ?thesis
    by (intro conjI ok0 ok1 example_scan_first example_scan_unplugged s1 s2 s3 again)
qed


section \<open>The discovery engine: the known map against the history\<close>

lemma fold_replay_added:
  "fold replay (map deviceAdded devs) announced = announced \<union> sysPath ` set devs"
  by (induction devs arbitrary: announced) auto

lemma fold_replay_removed:
  "fold replay (map (deviceRemoved \<circ> snd) entries) announced
     = announced - (\<lambda>entry. sysPath (snd entry)) ` set entries"
  by (induction entries arbitrary: announced) auto

lemma outstanding_append: "outstanding (history @ signals) = fold replay signals (outstanding history)"
  by (simp add: outstanding_def)

lemma known_ok_image:
  assumes "known_ok known"
  shows "(\<lambda>entry. sysPath (snd entry)) ` set (filter P known) = fst ` set (filter P known)"
proof (rule image_cong [OF refl])
  fix entry assume "entry \<in> set (filter P known)"
  then have "entry \<in> set known" by simp
  with assms show "sysPath (snd entry) = fst entry" by (rule known_ok_keys)
qed

lemma keys_filter_not:
  "fst ` set (filter (\<lambda>entry. fst entry \<notin> A) known) = fst ` set known - A"
  by (induction known) auto

lemma scan_tracks:
  assumes ok: "known_ok (m_known w)"
  shows "known_ok (m_known (snd (scan visible enumeration w)))
         \<and> fold replay (fst (scan visible enumeration w)) (fst ` set (m_known w))
             = fst ` set (m_known (snd (scan visible enumeration w)))"
proof -
  let ?present = "sysPath ` {d \<in> set enumeration. visible d}"
  let ?gone = "filter (\<lambda>entry. fst entry \<notin> ?present) (m_known w)"
  let ?kept = "filter (\<lambda>entry. fst entry \<in> ?present) (m_known w)"
  let ?new = "\<lambda>devs. map (\<lambda>dev. (sysPath dev, dev)) devs"
  from scan_shape [of visible enumeration w] obtain devs where
    eq: "scan visible enumeration w
           = (map deviceAdded devs @ map (deviceRemoved \<circ> snd) ?gone,
              w\<lparr>m_known := ?kept @ ?new devs\<rparr>)"
    and dist: "distinct (map sysPath devs)"
    and img: "sysPath ` set devs = ?present - fst ` set (m_known w)"
    by blast
  have dk: "distinct (map fst (m_known w))"
    and la: "list_all (\<lambda>(path, dev). sysPath dev = path) (m_known w)"
    using ok by (simp_all add: known_ok_def)
  have kk: "fst ` set ?kept = fst ` set (m_known w) \<inter> ?present"
    by (rule keys_filter)
  have kn: "fst ` set (?new devs) = sysPath ` set devs"
    by (simp add: image_image)
  have "distinct (map fst ?kept)" using dk by (rule distinct_map_filter)
  moreover have "distinct (map fst (?new devs))" using dist by (simp add: comp_def)
  moreover have "fst ` set ?kept \<inter> fst ` set (?new devs) = {}"
    unfolding kk kn img by blast
  ultimately have d': "distinct (map fst (?kept @ ?new devs))"
    by (simp only: map_append distinct_append set_map)
  have "list_all (\<lambda>(path, dev). sysPath dev = path) ?kept"
    using la by (simp add: list_all_iff)
  moreover have "list_all (\<lambda>(path, dev). sysPath dev = path) (?new devs)"
    by (simp add: list_all_iff)
  ultimately have l': "list_all (\<lambda>(path, dev). sysPath dev = path) (?kept @ ?new devs)"
    by (simp only: list_all_append simp_thms)
  have "fold replay (map deviceAdded devs @ map (deviceRemoved \<circ> snd) ?gone)
          (fst ` set (m_known w))
          = (fst ` set (m_known w) \<union> sysPath ` set devs)
              - (\<lambda>entry. sysPath (snd entry)) ` set ?gone"
    by (simp only: fold_append comp_apply fold_replay_added fold_replay_removed)
  also have "\<dots> = (fst ` set (m_known w) \<union> sysPath ` set devs)
                     - (fst ` set (m_known w) - ?present)"
    by (simp only: known_ok_image [OF ok] keys_filter_not)
  also have "\<dots> = (fst ` set (m_known w) \<inter> ?present) \<union> sysPath ` set devs"
    unfolding img by blast
  also have "\<dots> = fst ` set (?kept @ ?new devs)"
    by (simp only: set_append image_Un kk kn)
  finally show ?thesis
    unfolding eq using d' l' by (simp add: known_ok_def del: set_filter)
qed

lemma known_ok_delete: "known_ok known \<Longrightarrow> known_ok (AList.delete path known)"
  unfolding known_ok_def
  by (simp add: AList.distinct_delete) (simp add: delete_eq_filter list_all_iff)

lemma keys_delete: "fst ` set (AList.delete path known) = fst ` set known - {path}"
  by (induction known) auto

lemma onMonitorEvent_tracks:
  assumes ok: "known_ok known"
  shows "known_ok (snd (onMonitorEvent visible ev known))
         \<and> fold replay (fst (onMonitorEvent visible ev known)) (fst ` set known)
             = fst ` set (snd (onMonitorEvent visible ev known))"
proof (cases ev)
  case (Pair act dev)
  show ?thesis
  proof (cases act)
    case Add
    show ?thesis
    proof (cases "visible dev \<and> map_of known (sysPath dev) = None")
      case True
      then have "sysPath dev \<notin> fst ` set known" by (simp add: map_of_eq_None_iff)
      with ok have "known_ok (known @ [(sysPath dev, dev)])"
        by (simp add: known_ok_def)
      with True show ?thesis unfolding Pair Add by simp
    next
      case False
      with ok show ?thesis unfolding Pair Add by auto
    qed
  next
    case Remove
    show ?thesis
    proof (cases "visible dev")
      case True
      show ?thesis
      proof (cases "map_of known (sysPath dev)")
        case None
        with ok True show ?thesis unfolding Pair Remove by simp
      next
        case (Some old)
        then have "(sysPath dev, old) \<in> set known" by (rule map_of_SomeD)
        with ok have "sysPath (snd (sysPath dev, old)) = fst (sysPath dev, old)"
          by (rule known_ok_keys)
        then have "sysPath old = sysPath dev" by simp
        with Some True known_ok_delete [OF ok] show ?thesis
          unfolding Pair Remove by (simp add: keys_delete)
      qed
    next
      case False
      with ok show ?thesis unfolding Pair Remove by simp
    qed
  next
    case Other
    with ok show ?thesis unfolding Pair by simp
  qed
qed

lemma drain_tracks:
  "known_ok known \<Longrightarrow>
   known_ok (snd (drain visible ready known))
   \<and> fold replay (fst (drain visible ready known)) (fst ` set known)
       = fst ` set (snd (drain visible ready known))"
proof (induction ready arbitrary: known)
  case Nil
  then show ?case by simp
next
  case (Cons ev ready)
  from onMonitorEvent_tracks [OF Cons.prems, of visible ev]
  have ok1: "known_ok (snd (onMonitorEvent visible ev known))"
    and f1: "fold replay (fst (onMonitorEvent visible ev known)) (fst ` set known)
               = fst ` set (snd (onMonitorEvent visible ev known))"
    by simp_all
  from Cons.IH [OF ok1] f1 show ?case
    by (simp add: split_def Let_def)
qed

lemma onMonitorReady_tracks:
  "known_ok (m_known w) \<Longrightarrow>
   known_ok (m_known (snd (onMonitorReady visible ready w)))
   \<and> fold replay (fst (onMonitorReady visible ready w)) (fst ` set (m_known w))
       = fst ` set (m_known (snd (onMonitorReady visible ready w)))"
  using drain_tracks [of "m_known w" visible ready]
  by (simp add: onMonitorReady_def split_def Let_def)

lemma DeviceWatcher_setActive_tracks:
  "known_ok (m_known w) \<Longrightarrow>
   known_ok (m_known (snd (DeviceWatcher_setActive visible enumeration w active)))
   \<and> fold replay (fst (DeviceWatcher_setActive visible enumeration w active))
         (fst ` set (m_known w))
       = fst ` set (m_known (snd (DeviceWatcher_setActive visible enumeration w active)))"
  using scan_tracks [of w visible enumeration]
  by (simp add: DeviceWatcher_setActive_def split_def Let_def)

lemma engine_invariant:
  "engine_reachable visible st \<Longrightarrow>
   known_ok (m_known (fst st)) \<and> fst ` set (m_known (fst st)) = outstanding (snd st)"
proof (induction rule: engine_reachable.induct)
  case engine_new
  show ?case by (simp add: DeviceWatcher_new_def known_ok_def outstanding_def)
next
  case (engine_scan w history enumeration)
  with scan_tracks [of w visible enumeration] show ?case
    by (simp add: outstanding_append)
next
  case (engine_setActive w history enumeration active)
  with DeviceWatcher_setActive_tracks [of w visible enumeration active] show ?case
    by (simp add: outstanding_append)
next
  case (engine_monitor w history ready)
  with onMonitorReady_tracks [of w visible ready] show ?case
    by (simp add: outstanding_append)
qed

lemma fold_replay_iff:
  "path \<in> fold replay history announced \<longleftrightarrow>
     (\<exists>before dev after. history = before @ deviceAdded dev # after \<and> sysPath dev = path
        \<and> (\<forall>sg \<in> set after. \<not> withdraws path sg))
     \<or> (path \<in> announced \<and> (\<forall>sg \<in> set history. \<not> withdraws path sg))"
proof (induction history arbitrary: announced)
  case Nil
  show ?case by simp
next
  case (Cons sg history)
  show ?case
  proof (cases sg)
    case (deviceAdded dev)
    show ?thesis
      unfolding deviceAdded
      by (simp add: Cons.IH Cons_eq_append_conv ex_disj_distrib conj_disj_distribR) blast
  next
    case (deviceRemoved dev)
    show ?thesis
      unfolding deviceRemoved
      by (simp add: Cons.IH Cons_eq_append_conv ex_disj_distrib conj_disj_distribR) blast
  qed
qed

text \<open>
  C2. In every state an engine can reach, the keys of the known map are exactly the
  syspaths the history leaves announced: those with a \<^const>\<open>deviceAdded\<close> in the history
  that no later \<^const>\<open>deviceRemoved\<close> for the same syspath follows. Each of the three
  operations, run from such a state, ends in a state where this holds again.
\<close>

theorem known_map_tracks_signals:
  assumes "engine_reachable visible (w, history)"
  shows "fst ` set (m_known w) = outstanding history
         \<and> (\<forall>path. path \<in> fst ` set (m_known w) \<longleftrightarrow>
               (\<exists>before dev after.
                  history = before @ deviceAdded dev # after \<and> sysPath dev = path
                  \<and> (\<forall>sg \<in> set after. \<not> withdraws path sg)))
         \<and> fst ` set (m_known (snd (scan visible enumeration w)))
             = outstanding (history @ fst (scan visible enumeration w))
         \<and> fst ` set (m_known (snd (DeviceWatcher_setActive visible enumeration w active)))
             = outstanding (history @ fst (DeviceWatcher_setActive visible enumeration w active))
         \<and> fst ` set (m_known (snd (onMonitorReady visible ready w)))
             = outstanding (history @ fst (onMonitorReady visible ready w))"
proof -
  have inv: "fst ` set (m_known w') = outstanding history'"
    if "engine_reachable visible (w', history')" for w' history'
    using engine_invariant [OF that] by simp
  have "path \<in> outstanding history \<longleftrightarrow>
          (\<exists>before dev after.
             history = before @ deviceAdded dev # after \<and> sysPath dev = path
             \<and> (\<forall>sg \<in> set after. \<not> withdraws path sg))" for path
    unfolding outstanding_def fold_replay_iff by simp
  then have "\<forall>path. path \<in> fst ` set (m_known w) \<longleftrightarrow>
               (\<exists>before dev after.
                  history = before @ deviceAdded dev # after \<and> sysPath dev = path
                  \<and> (\<forall>sg \<in> set after. \<not> withdraws path sg))"
    unfolding inv [OF assms] by (rule allI)
  moreover note inv [OF assms]
    inv [OF engine_scan [OF assms, of enumeration]]
    inv [OF engine_setActive [OF assms, of enumeration active]]
    inv [OF engine_monitor [OF assms, of ready]]
  ultimately show ?thesis by (intro conjI)
qed

theorem known_map_tracks_signals_witness:
  "engine_reachable (isVisible example_filter) (example_watcher, [deviceAdded example_keyboard])
   \<and> fst ` set (m_known example_watcher) = outstanding [deviceAdded example_keyboard]
   \<and> fst ` set (m_known (snd (onMonitorReady (isVisible example_filter)
                                 [(Remove, example_keyboard)] example_watcher)))
       = outstanding ([deviceAdded example_keyboard]
                        @ fst (onMonitorReady (isVisible example_filter)
                                 [(Remove, example_keyboard)] example_watcher))"
proof -
  have "engine_reachable (isVisible example_filter) (DeviceWatcher_new, [])"
    by (rule engine_new)
  from engine_scan [OF this, of "[example_keyboard, example_hub]"]
  have r: "engine_reachable (isVisible example_filter)
             (example_watcher, [deviceAdded example_keyboard])"
    by (simp add: example_scan_first)
  note t = known_map_tracks_signals [OF r, where ready = "[(Remove, example_keyboard)]"]
  show ?thesis
    by (intro conjI r t [THEN conjunct1]
        t [THEN conjunct2, THEN conjunct2, THEN conjunct2, THEN conjunct2])
qed

end
